theory Spec2Isabelle
  imports Main "HOL-Library.Sublist"
begin

section \<open>The board: a 6 x 7 numpy array\<close>

text \<open>
  \<^verbatim>\<open>self.__container = np.zeros((6, 7))\<close>: a two-dimensional array, row 0 on top.
  A row is a list of cells, the array a list of rows. The cells are the numbers the
  program writes: 0 for an empty place, the player's number (1 or 2) for a coin.
\<close>

type_synonym board = "int list list"

definition np_zeros :: "nat \<Rightarrow> nat \<Rightarrow> board" where
  "np_zeros r c = replicate r (replicate c 0)"

definition wf_board :: "board \<Rightarrow> bool" where
  "wf_board b \<longleftrightarrow> length b = 6 \<and> list_all (\<lambda>row. length row = 7) b"

datatype error = IndexError | OverflowError | ValueError | SystemExit

text \<open>
  Indexing one axis of length \<open>n\<close> of a numpy array with a Python integer. numpy first
  converts the integer to a signed 64-bit index and raises OverflowError when it
  does not fit; then an index from \<open>-n\<close> to \<open>-1\<close> counts from the end, and an index
  outside \<open>[-n, n)\<close> raises IndexError.
\<close>

definition np_index :: "nat \<Rightarrow> int \<Rightarrow> error + nat" where
  "np_index n i =
     (if i < - (2 ^ 63) \<or> 2 ^ 63 \<le> i then Inl OverflowError
      else if 0 \<le> i \<and> i < int n then Inr (nat i)
      else if - int n \<le> i \<and> i < 0 then Inr (nat (int n + i))
      else Inl IndexError)"

text \<open>\<^verbatim>\<open>np.all(a)\<close>: no element of the array is zero.\<close>

definition np_all :: "board \<Rightarrow> bool" where
  "np_all b = list_all (list_all (\<lambda>x. x \<noteq> 0)) b"

section \<open>Connect4: the methods on the array\<close>

text \<open>\<^verbatim>\<open>return self.__container[0, column] == 0\<close>\<close>

definition check_move_allowed :: "int \<Rightarrow> board \<Rightarrow> error + bool" where
  "check_move_allowed column b =
     (case np_index 7 column of
        Inl e \<Rightarrow> Inl e
      | Inr c \<Rightarrow> Inr (b ! 0 ! c = 0))"

text \<open>
  \<^verbatim>\<open>for row in reversed(range(...)): if self.__container[row, column] == 0: break\<close>
  The value of \<open>row\<close> after the loop: the first row of the list whose cell is empty,
  and the last row of the list when the loop runs to its end.
\<close>

fun for_row :: "board \<Rightarrow> nat \<Rightarrow> nat list \<Rightarrow> nat" where
  "for_row b c [] = 0"
| "for_row b c [row] = row"
| "for_row b c (row # rows) = (if b ! row ! c = 0 then row else for_row b c rows)"

text \<open>
  \<open>place_coin\<close> returns \<open>res\<close> (True) after writing the coin, and falls off its end,
  returning None, when the move is not allowed. The array is changed in place; the
  model returns it.
\<close>

definition place_coin :: "int \<Rightarrow> int \<Rightarrow> board \<Rightarrow> error + (bool option \<times> board)" where
  "place_coin column player b =
     (case check_move_allowed column b of
        Inl e \<Rightarrow> Inl e
      | Inr res \<Rightarrow>
          if res then
            (case np_index 7 column of
               Inl e \<Rightarrow> Inl e
             | Inr c \<Rightarrow>
                 let row = for_row b c (rev [0..<length b])
                 in Inr (Some res, b[row := (b ! row)[c := player]]))
          else Inr (None, b))"

text \<open>The four scans of \<open>check_win\<close>, each a pair of nested loops over a range.\<close>

definition horizontal_win :: "int \<Rightarrow> board \<Rightarrow> bool" where
  "horizontal_win player b =
     list_ex (\<lambda>c. list_ex (\<lambda>r.
        b ! r ! c = b ! r ! (c + 1) \<and> b ! r ! (c + 1) = b ! r ! (c + 2) \<and>
        b ! r ! (c + 2) = b ! r ! (c + 3) \<and> b ! r ! (c + 3) = player) [0..<6]) [0..<7 - 3]"

definition vertical_win :: "int \<Rightarrow> board \<Rightarrow> bool" where
  "vertical_win player b =
     list_ex (\<lambda>c. list_ex (\<lambda>r.
        b ! r ! c = b ! (r + 1) ! c \<and> b ! (r + 1) ! c = b ! (r + 2) ! c \<and>
        b ! (r + 2) ! c = b ! (r + 3) ! c \<and> b ! (r + 3) ! c = player) [0..<6 - 3]) [0..<7]"

definition decreasing_win :: "int \<Rightarrow> board \<Rightarrow> bool" where
  "decreasing_win player b =
     list_ex (\<lambda>c. list_ex (\<lambda>r.
        b ! r ! c = b ! (r + 1) ! (c + 1) \<and> b ! (r + 1) ! (c + 1) = b ! (r + 2) ! (c + 2) \<and>
        b ! (r + 2) ! (c + 2) = b ! (r + 3) ! (c + 3) \<and> b ! (r + 3) ! (c + 3) = player)
        [0..<6 - 3]) [0..<7 - 3]"

definition increasing_win :: "int \<Rightarrow> board \<Rightarrow> bool" where
  "increasing_win player b =
     list_ex (\<lambda>c. list_ex (\<lambda>r.
        b ! r ! c = b ! (r - 1) ! (c + 1) \<and> b ! (r - 1) ! (c + 1) = b ! (r - 2) ! (c + 2) \<and>
        b ! (r - 2) ! (c + 2) = b ! (r - 3) ! (c + 3) \<and> b ! (r - 3) ! (c + 3) = player)
        [3..<6]) [0..<7 - 3]"

text \<open>
  \<open>check_win\<close> returns \<open>player\<close> at the first line of four it meets, 3 when it met
  none and the array has no zero, and None otherwise.
\<close>

definition check_win :: "int \<Rightarrow> board \<Rightarrow> int option" where
  "check_win player b =
     (if horizontal_win player b then Some player
      else if vertical_win player b then Some player
      else if decreasing_win player b then Some player
      else if increasing_win player b then Some player
      else if np_all b then Some 3
      else None)"

section \<open>Objects and arrays in memory\<close>

text \<open>
  Arrays live in a store and are named by their address: \<open>a.copy()\<close> allocates a new
  array, an assignment such as \<open>updated_board = self._Connect4__container\<close> copies
  the address only. The fields of a \<open>Connect4\<close> object (a \<open>Bot\<close> has the same ones)
  are a record; \<open>container\<close> holds the address of the object's array. The fields
  \<open>screen\<close> and \<open>myfont\<close> belong to the display and are left out.
\<close>

type_synonym addr = nat
type_synonym heap = "board list"

record connect4 =
  container :: addr
  turn :: int
  game_over :: bool
  num_players :: int
  bot_difficulty :: "string option"

text \<open>
  What a call does: it returns a value, raises, or is still inside a \<open>while True\<close>
  loop when the random numbers supplied to the model are used up.
\<close>

datatype 'a outcome = Returned 'a | Raised error | OutOfDraws

text \<open>The truth value Python gives to what \<open>place_coin\<close> and \<open>check_mistake\<close> return.\<close>

fun truthy :: "bool option \<Rightarrow> bool" where
  "truthy None = False"
| "truthy (Some v) = v"

text \<open>\<open>Connect4.__init__\<close> has no check and no raise; the display calls are left out.\<close>

definition Connect4_init ::
  "int \<Rightarrow> string option \<Rightarrow> heap \<Rightarrow> error + (connect4 \<times> heap)" where
  "Connect4_init n_players difficulty h =
     Inr (\<lparr>container = length h, turn = 0, game_over = False,
           num_players = n_players, bot_difficulty = difficulty\<rparr>,
          h @ [np_zeros 6 7])"

text \<open>
  The script's entry: argparse refuses a difficulty outside its choices, then the
  script refuses one player without a difficulty (\<open>parser.error\<close> exits), and only
  then constructs the game.
\<close>

definition main_construct ::
  "int \<Rightarrow> string option \<Rightarrow> heap \<Rightarrow> error + (connect4 \<times> heap)" where
  "main_construct number_of_players difficulty h =
     (if difficulty \<noteq> None \<and> difficulty \<notin> Some ` {''easy'', ''moderate'', ''hard''}
      then Inl SystemExit
      else if number_of_players = 1 \<and> difficulty = None then Inl SystemExit
      else Connect4_init number_of_players difficulty h)"

text \<open>The methods of \<open>Connect4\<close> on the array of \<open>self\<close>.\<close>

definition self_check_move_allowed :: "int \<Rightarrow> connect4 \<Rightarrow> heap \<Rightarrow> error + bool" where
  "self_check_move_allowed column self h = check_move_allowed column (h ! container self)"

definition self_place_coin ::
  "int \<Rightarrow> int \<Rightarrow> connect4 \<Rightarrow> heap \<Rightarrow> error + (bool option \<times> heap)" where
  "self_place_coin column player self h =
     (case place_coin column player (h ! container self) of
        Inl e \<Rightarrow> Inl e
      | Inr (res, b') \<Rightarrow> Inr (res, h[container self := b']))"

definition self_check_win :: "int \<Rightarrow> connect4 \<Rightarrow> heap \<Rightarrow> int option" where
  "self_check_win player self h = check_win player (h ! container self)"

section \<open>Bot\<close>

text \<open>\<open>Bot.__init__\<close>: \<open>super().__init__(1, difficulty)\<close>.\<close>

definition Bot_init :: "string option \<Rightarrow> heap \<Rightarrow> error + (connect4 \<times> heap)" where
  "Bot_init difficulty h = Connect4_init 1 difficulty h"

text \<open>\<^verbatim>\<open>self._Connect4__container = curr_board.copy()\<close>\<close>

definition set_current_board :: "addr \<Rightarrow> connect4 \<Rightarrow> heap \<Rightarrow> connect4 \<times> heap" where
  "set_current_board curr_board self h =
     (self\<lparr>container := length h\<rparr>, h @ [h ! curr_board])"

text \<open>
  \<open>np.random.randint(low, high)\<close>: an integer of \<open>[low, high)\<close>. The model draws it
  from a list of natural numbers, the randomness handed to the program.
\<close>

definition randint :: "int \<Rightarrow> int \<Rightarrow> nat \<Rightarrow> int" where
  "randint low high d = low + int d mod (high - low)"

fun random_loop ::
  "nat list \<Rightarrow> connect4 \<Rightarrow> heap \<Rightarrow> int outcome \<times> nat list \<times> connect4 \<times> heap" where
  "random_loop [] self h = (OutOfDraws, [], self, h)"
| "random_loop (d # ds) self h =
     (let col = randint 0 7 d in
      case self_place_coin col 2 self h of
        Inl e \<Rightarrow> (Raised e, ds, self, h)
      | Inr (res, h1) \<Rightarrow>
          if truthy res then (Returned col, ds, self, h1)
          else random_loop ds self h1)"

definition random_move ::
  "addr \<Rightarrow> nat list \<Rightarrow> connect4 \<Rightarrow> heap \<Rightarrow> int outcome \<times> nat list \<times> connect4 \<times> heap" where
  "random_move curr_board ds self h =
     (case set_current_board curr_board self h of
        (self1, h1) \<Rightarrow> random_loop ds self1 h1)"

text \<open>
  The inner loop of \<open>place_4th_coin\<close> over the columns, for one player. It returns
  \<open>Some col\<close> where the function returns \<open>col\<close>, and None when the loop ends.
\<close>

fun place_4th_cols ::
  "addr \<Rightarrow> int \<Rightarrow> int list \<Rightarrow> connect4 \<Rightarrow> heap \<Rightarrow> int option outcome \<times> connect4 \<times> heap" where
  "place_4th_cols curr_board player [] self h = (Returned None, self, h)"
| "place_4th_cols curr_board player (col # cols) self h =
     (case self_place_coin col player self h of
        Inl e \<Rightarrow> (Raised e, self, h)
      | Inr (res, h1) \<Rightarrow>
          if truthy res then
            if self_check_win player self h1 = Some player then (Returned (Some col), self, h1)
            else (case set_current_board curr_board self h1 of
                    (self2, h2) \<Rightarrow> place_4th_cols curr_board player cols self2 h2)
          else place_4th_cols curr_board player cols self h1)"

fun place_4th_players ::
  "addr \<Rightarrow> int list \<Rightarrow> connect4 \<Rightarrow> heap \<Rightarrow> int option outcome \<times> connect4 \<times> heap" where
  "place_4th_players curr_board [] self h = (Returned None, self, h)"
| "place_4th_players curr_board (player # players) self h =
     (case place_4th_cols curr_board player (map int [0..<7]) self h of
        (Returned None, self1, h1) \<Rightarrow> place_4th_players curr_board players self1 h1
      | r \<Rightarrow> r)"

definition place_4th_coin ::
  "addr \<Rightarrow> connect4 \<Rightarrow> heap \<Rightarrow> int option outcome \<times> connect4 \<times> heap" where
  "place_4th_coin curr_board self h =
     (case set_current_board curr_board self h of
        (self1, h1) \<Rightarrow> place_4th_players curr_board (rev (map int [1..<3])) self1 h1)"

text \<open>
  The loop of \<open>check_mistake\<close> over the opponent's columns. \<open>updated_board\<close> is the
  address that \<open>self._Connect4__container\<close> held when the loop began.
\<close>

fun check_mistake_cols ::
  "addr \<Rightarrow> int list \<Rightarrow> connect4 \<Rightarrow> heap \<Rightarrow> bool option outcome \<times> connect4 \<times> heap" where
  "check_mistake_cols updated_board [] self h = (Returned None, self, h)"
| "check_mistake_cols updated_board (col # cols) self h =
     (case self_place_coin col 1 self h of
        Inl e \<Rightarrow> (Raised e, self, h)
      | Inr (res, h1) \<Rightarrow>
          if truthy res then
            if self_check_win 1 self h1 = Some 1 then (Returned (Some True), self, h1)
            else (case set_current_board updated_board self h1 of
                    (self2, h2) \<Rightarrow> check_mistake_cols updated_board cols self2 h2)
          else check_mistake_cols updated_board cols self h1)"

definition check_mistake ::
  "int \<Rightarrow> addr \<Rightarrow> connect4 \<Rightarrow> heap \<Rightarrow> bool option outcome \<times> connect4 \<times> heap" where
  "check_mistake column curr_board self h =
     (case set_current_board curr_board self h of
        (self1, h1) \<Rightarrow>
          (case self_place_coin column 2 self1 h1 of
             Inl e \<Rightarrow> (Raised e, self1, h1)
           | Inr (res, h2) \<Rightarrow>
               if truthy res then
                 (let updated_board = container self1
                  in check_mistake_cols updated_board (map int [0..<7]) self1 h2)
               else (Returned None, self1, h2)))"

text \<open>
  The hard level, first loop: counting the columns that are allowed on the array
  \<open>self\<close> holds at that moment and that \<open>check_mistake\<close> does not flag.
\<close>

fun count_available ::
  "addr \<Rightarrow> int list \<Rightarrow> nat \<Rightarrow> connect4 \<Rightarrow> heap \<Rightarrow> nat outcome \<times> connect4 \<times> heap" where
  "count_available curr_board [] available_moves self h = (Returned available_moves, self, h)"
| "count_available curr_board (col # cols) available_moves self h =
     (case self_check_move_allowed col self h of
        Inl e \<Rightarrow> (Raised e, self, h)
      | Inr allowed \<Rightarrow>
          if allowed then
            (case check_mistake col curr_board self h of
               (Returned mistake, self1, h1) \<Rightarrow>
                 if \<not> truthy mistake
                 then count_available curr_board cols (available_moves + 1) self1 h1
                 else count_available curr_board cols available_moves self1 h1
             | (Raised e, self1, h1) \<Rightarrow> (Raised e, self1, h1)
             | (OutOfDraws, self1, h1) \<Rightarrow> (OutOfDraws, self1, h1))
          else count_available curr_board cols available_moves self h)"

text \<open>
  The hard level, second loop: \<open>while True\<close>, a random move until one is not flagged.
  Every round takes at least one random number, so the loop of the model ends when
  the list of draws does.
\<close>

lemma random_loop_draws:
  "random_loop ds self h = (Returned col, ds1, self1, h1) \<Longrightarrow> length ds1 < length ds"
proof (induction ds arbitrary: h)
  case Nil
  then show ?case by simp
next
  case (Cons d ds)
  show ?case
  proof (cases "self_place_coin (randint 0 7 d) 2 self h")
    case (Inl e)
    with Cons.prems show ?thesis by simp
  next
    case (Inr p)
    obtain res h' where p: "p = (res, h')" by (cases p)
    show ?thesis
    proof (cases "truthy res")
      case True
      with Cons.prems Inr p show ?thesis by auto
    next
      case False
      with Cons.prems Inr p have "random_loop ds self h' = (Returned col, ds1, self1, h1)"
        by simp
      from Cons.IH[OF this] show ?thesis by simp
    qed
  qed
qed

function select_randomly ::
  "addr \<Rightarrow> nat list \<Rightarrow> connect4 \<Rightarrow> heap \<Rightarrow> int outcome \<times> nat list \<times> connect4 \<times> heap" where
  "select_randomly curr_board ds self h =
     (case random_move curr_board ds self h of
        (Returned rand_move, ds1, self1, h1) \<Rightarrow>
          (case check_mistake rand_move curr_board self1 h1 of
             (Returned mistake, self2, h2) \<Rightarrow>
               if \<not> truthy mistake then (Returned rand_move, ds1, self2, h2)
               else select_randomly curr_board ds1 self2 h2
           | (Raised e, self2, h2) \<Rightarrow> (Raised e, ds1, self2, h2)
           | (OutOfDraws, self2, h2) \<Rightarrow> (OutOfDraws, ds1, self2, h2))
      | (Raised e, ds1, self1, h1) \<Rightarrow> (Raised e, ds1, self1, h1)
      | (OutOfDraws, ds1, self1, h1) \<Rightarrow> (OutOfDraws, ds1, self1, h1))"
  by pat_completeness auto
termination
proof (relation "measure (\<lambda>(curr_board, ds, self, h). length ds)")
  show "wf (measure (\<lambda>(curr_board, ds, self, h). length ds))" by simp
qed (auto simp: random_move_def set_current_board_def dest: random_loop_draws[OF sym])

text \<open>\<open>bot_move\<close> returns None when the difficulty is none of the three.\<close>

definition bot_move ::
  "addr \<Rightarrow> nat list \<Rightarrow> connect4 \<Rightarrow> heap \<Rightarrow> int option outcome \<times> nat list \<times> connect4 \<times> heap" where
  "bot_move curr_board ds self h =
     (if bot_difficulty self = Some ''easy'' then
        (case random_move curr_board ds self h of
           (Returned col, r) \<Rightarrow> (Returned (Some col), r)
         | (Raised e, r) \<Rightarrow> (Raised e, r)
         | (OutOfDraws, r) \<Rightarrow> (OutOfDraws, r))
      else if bot_difficulty self = Some ''moderate'' then
        (case place_4th_coin curr_board self h of
           (Returned res, self1, h1) \<Rightarrow>
             if res \<noteq> None then (Returned res, ds, self1, h1)
             else (case random_move curr_board ds self1 h1 of
                     (Returned col, r) \<Rightarrow> (Returned (Some col), r)
                   | (Raised e, r) \<Rightarrow> (Raised e, r)
                   | (OutOfDraws, r) \<Rightarrow> (OutOfDraws, r))
         | (Raised e, self1, h1) \<Rightarrow> (Raised e, ds, self1, h1)
         | (OutOfDraws, self1, h1) \<Rightarrow> (OutOfDraws, ds, self1, h1))
      else if bot_difficulty self = Some ''hard'' then
        (case place_4th_coin curr_board self h of
           (Returned res, self1, h1) \<Rightarrow>
             if res \<noteq> None then (Returned res, ds, self1, h1)
             else
               (case count_available curr_board (map int [0..<7]) 0 self1 h1 of
                  (Returned available_moves, self2, h2) \<Rightarrow>
                    (case (if available_moves > 0
                           then select_randomly curr_board ds self2 h2
                           else random_move curr_board ds self2 h2) of
                       (Returned col, r) \<Rightarrow> (Returned (Some col), r)
                     | (Raised e, r) \<Rightarrow> (Raised e, r)
                     | (OutOfDraws, r) \<Rightarrow> (OutOfDraws, r))
                | (Raised e, self2, h2) \<Rightarrow> (Raised e, ds, self2, h2)
                | (OutOfDraws, self2, h2) \<Rightarrow> (OutOfDraws, ds, self2, h2))
         | (Raised e, self1, h1) \<Rightarrow> (Raised e, ds, self1, h1)
         | (OutOfDraws, self1, h1) \<Rightarrow> (OutOfDraws, ds, self1, h1))
      else (Returned None, ds, self, h))"

section \<open>The game: one mouse click\<close>

datatype event = QUIT | MOUSEMOTION int | MOUSEBUTTONDOWN int | OTHER

datatype flow = Next | Break

definition SQUARESIZE :: int where "SQUARESIZE = 100"

text \<open>
  After a coin of \<open>player\<close>: \<^verbatim>\<open>if self.check_win(player) == player: self.game_over = True\<close>
  and \<^verbatim>\<open>if self.check_win(1) == 3: self.game_over = True\<close> (the labels are left out).
\<close>

definition after_coin :: "int \<Rightarrow> connect4 \<Rightarrow> heap \<Rightarrow> connect4" where
  "after_coin player self h =
     (let self1 = (if self_check_win player self h = Some player
                   then self\<lparr>game_over := True\<rparr> else self)
      in if self_check_win 1 self1 h = Some 3 then self1\<lparr>game_over := True\<rparr> else self1)"

text \<open>
  The bot's turn: a new \<open>Bot\<close>, its move on the game's array, the coin. A move None
  (a difficulty that is none of the three) makes \<open>place_coin\<close> index the array with
  None, and the test of the resulting array raises ValueError.
\<close>

definition bot_turn ::
  "nat list \<Rightarrow> connect4 \<Rightarrow> heap \<Rightarrow> flow outcome \<times> nat list \<times> connect4 \<times> heap" where
  "bot_turn ds self h =
     (case Bot_init (bot_difficulty self) h of
        Inl e \<Rightarrow> (Raised e, ds, self, h)
      | Inr (bot1, h1) \<Rightarrow>
          (case bot_move (container self) ds bot1 h1 of
             (Returned move, ds2, bot2, h2) \<Rightarrow>
               (case move of
                  None \<Rightarrow> (Raised ValueError, ds2, self, h2)
                | Some col \<Rightarrow>
                    (case self_place_coin col 2 self h2 of
                       Inl e \<Rightarrow> (Raised e, ds2, self, h2)
                     | Inr (res, h3) \<Rightarrow>
                         if truthy res then (Returned Next, ds2, after_coin 2 self h3, h3)
                         else (Returned Next, ds2, self, h3)))
           | (Raised e, ds2, bot2, h2) \<Rightarrow> (Raised e, ds2, self, h2)
           | (OutOfDraws, ds2, bot2, h2) \<Rightarrow> (OutOfDraws, ds2, self, h2)))"

text \<open>
  The branch of \<open>event_handler\<close> for MOUSEBUTTONDOWN at horizontal position \<open>posx\<close>.
  \<open>Break\<close> is the \<open>break\<close> out of the loop over the events.
\<close>

definition mouse_button_down ::
  "int \<Rightarrow> nat list \<Rightarrow> connect4 \<Rightarrow> heap \<Rightarrow> flow outcome \<times> nat list \<times> connect4 \<times> heap" where
  "mouse_button_down posx ds self h =
     (let col = posx div SQUARESIZE;
          player = (if turn self = 0 then 1 else 2)
      in case self_place_coin col player self h of
           Inl e \<Rightarrow> (Raised e, ds, self, h)
         | Inr (res, h1) \<Rightarrow>
             if truthy res then
               (let self1 = after_coin player self h1 in
                if num_players self1 = 2
                then (Returned Next, ds, self1\<lparr>turn := (turn self1 + 1) mod 2\<rparr>, h1)
                else if \<not> game_over self1 then bot_turn ds self1 h1
                else (Returned Next, ds, self1, h1))
             else (Returned Break, ds, self, h1))"

fun event_handler ::
  "event list \<Rightarrow> nat list \<Rightarrow> connect4 \<Rightarrow> heap \<Rightarrow> unit outcome \<times> nat list \<times> connect4 \<times> heap" where
  "event_handler [] ds self h = (Returned (), ds, self, h)"
| "event_handler (QUIT # evs) ds self h = (Raised SystemExit, ds, self, h)"
| "event_handler (MOUSEMOTION posx # evs) ds self h = event_handler evs ds self h"
| "event_handler (OTHER # evs) ds self h = event_handler evs ds self h"
| "event_handler (MOUSEBUTTONDOWN posx # evs) ds self h =
     (case mouse_button_down posx ds self h of
        (Returned Break, r) \<Rightarrow> (Returned (), r)
      | (Returned Next, ds1, self1, h1) \<Rightarrow> event_handler evs ds1 self1 h1
      | (Raised e, r) \<Rightarrow> (Raised e, r)
      | (OutOfDraws, r) \<Rightarrow> (OutOfDraws, r))"

section \<open>The properties, in the words of the specification\<close>

text \<open>A cell of the 6 x 7 grid, and a run of four cells from a cell in a direction.\<close>

definition in_grid :: "int \<Rightarrow> int \<Rightarrow> bool" where
  "in_grid r c \<longleftrightarrow> 0 \<le> r \<and> r < 6 \<and> 0 \<le> c \<and> c < 7"

definition run_of_four :: "board \<Rightarrow> int \<Rightarrow> int \<Rightarrow> int \<Rightarrow> int \<Rightarrow> int \<Rightarrow> bool" where
  "run_of_four b p r c dr dc \<longleftrightarrow>
     (\<forall>i\<in>{0..<4}. in_grid (r + int i * dr) (c + int i * dc) \<and>
         b ! nat (r + int i * dr) ! nat (c + int i * dc) = p)"

text \<open>Horizontal, vertical, down-right and up-right, from any cell.\<close>

definition four_in_a_row :: "board \<Rightarrow> int \<Rightarrow> bool" where
  "four_in_a_row b p \<longleftrightarrow>
     (\<exists>r c. run_of_four b p r c 0 1 \<or> run_of_four b p r c 1 0 \<or>
            run_of_four b p r c 1 1 \<or> run_of_four b p r c (-1) 1)"

definition board_full :: "board \<Rightarrow> bool" where
  "board_full b \<longleftrightarrow> (\<forall>r<6. \<forall>c<7. b ! r ! c \<noteq> 0)"

text \<open>The number of occupied cells of a column, and gravity: no coin above an empty cell.\<close>

definition occupied_cells :: "board \<Rightarrow> nat \<Rightarrow> nat" where
  "occupied_cells b c = length (filter (\<lambda>r. b ! r ! c \<noteq> 0) [0..<6])"

definition stacked :: "board \<Rightarrow> nat \<Rightarrow> bool" where
  "stacked b c \<longleftrightarrow>
     list_all (\<lambda>r. b ! r ! c \<noteq> 0 \<longrightarrow> list_all (\<lambda>r'. b ! r' ! c \<noteq> 0) [r..<6]) [0..<6]"

text \<open>
  A column that completes four in a row for \<open>player\<close>: the coin can be placed there,
  and the board with the coin has a run of four of the player.
\<close>

definition completes_four :: "int \<Rightarrow> board \<Rightarrow> nat \<Rightarrow> bool" where
  "completes_four player b col \<longleftrightarrow>
     (\<exists>b1. place_coin (int col) player b = Inr (Some True, b1) \<and> four_in_a_row b1 player)"

text \<open>
  An unsafe move of the bot (player 2): its coin can be placed in the column, and on
  the board with that coin the opponent (player 1) has a column that wins at once.
\<close>

definition unsafe_move :: "board \<Rightarrow> int \<Rightarrow> bool" where
  "unsafe_move b column \<longleftrightarrow>
     (case place_coin column 2 b of
        Inr (Some True, b1) \<Rightarrow>
          list_ex (\<lambda>col. case place_coin (int col) 1 b1 of
                           Inr (Some True, b2) \<Rightarrow> check_win 1 b2 = Some 1
                         | _ \<Rightarrow> False) [0..<7]
      | _ \<Rightarrow> False)"

section \<open>Auxiliary notions for the proofs about the bot\<close>

text \<open>What one round of the loops of the bot sees: the coin placed and the win tested.\<close>

definition wins :: "int \<Rightarrow> board \<Rightarrow> int \<Rightarrow> bool" where
  "wins player b col \<longleftrightarrow>
     (case place_coin col player b of
        Inl e \<Rightarrow> False
      | Inr (res, b1) \<Rightarrow> truthy res \<and> check_win player b1 = Some player)"

definition bot_inv :: "addr \<Rightarrow> board \<Rightarrow> connect4 \<Rightarrow> heap \<Rightarrow> bool" where
  "bot_inv curr_board b self h \<longleftrightarrow>
     curr_board < length h \<and> container self < length h \<and> container self \<noteq> curr_board \<and>
     h ! container self = b \<and> h ! curr_board = b"

text \<open>
  The arrays of \<open>h0\<close> are still there, unchanged, and \<open>self\<close> holds an array that was
  allocated after them.
\<close>

definition fresh :: "heap \<Rightarrow> connect4 \<Rightarrow> heap \<Rightarrow> bool" where
  "fresh h0 self h \<longleftrightarrow> prefix h0 h \<and> length h0 \<le> container self"


section \<open>Boards used as examples\<close>

definition up_right_board :: board where
  "up_right_board =
    [[0,0,0,0,0,0,0],
     [0,0,0,0,0,0,0],
     [0,0,0,2,0,0,0],
     [0,0,2,1,0,0,0],
     [0,2,1,1,0,0,0],
     [2,1,1,2,0,0,0]]"

definition drawn_board :: board where
  "drawn_board =
    [[1,1,2,2,1,1,2],
     [2,2,1,1,2,2,1],
     [1,1,2,2,1,1,2],
     [2,2,1,1,2,2,1],
     [1,1,2,2,1,1,2],
     [2,2,1,1,2,2,1]]"

definition full_won_board :: board where
  "full_won_board =
    [[1,1,1,1,2,1,2],
     [2,2,1,1,2,2,1],
     [1,1,2,2,1,1,2],
     [2,2,1,1,2,2,1],
     [1,1,2,2,1,1,2],
     [2,2,1,1,2,2,1]]"

definition two_coins_board :: board where
  "two_coins_board =
    [[0,0,0,0,0,0,0],
     [0,0,0,0,0,0,0],
     [0,0,0,0,0,0,0],
     [0,0,0,0,0,0,0],
     [0,0,0,2,0,0,0],
     [0,0,0,1,0,0,0]]"

definition full_column_board :: board where
  "full_column_board =
    [[0,0,1,0,0,0,0],
     [0,0,2,0,0,0,0],
     [0,0,1,0,0,0,0],
     [0,0,2,0,0,0,0],
     [0,0,1,0,0,0,0],
     [0,0,2,1,0,0,0]]"

definition own_win_board :: board where
  "own_win_board =
    [[0,0,0,0,0,0,0],
     [0,0,0,0,0,0,0],
     [0,1,0,0,0,0,0],
     [0,1,0,0,0,0,0],
     [0,1,0,0,0,0,0],
     [2,2,2,0,0,0,1]]"

definition open_two_board :: board where
  "open_two_board =
    [[0,0,0,0,0,0,0],
     [0,0,0,0,0,0,0],
     [0,0,0,0,0,0,0],
     [0,0,0,0,0,0,0],
     [0,0,0,0,0,0,0],
     [0,1,1,0,0,0,2]]"

definition hard_bot :: connect4 where
  "hard_bot = \<lparr>container = 1, turn = 0, game_over = False, num_players = 1,
               bot_difficulty = Some ''hard''\<rparr>"

section \<open>Win detection\<close>

lemma four_set: "{0..<4::nat} = {0,1,2,3}" by auto

lemma run_of_four_unfold:
  "run_of_four b p r c dr dc \<longleftrightarrow>
     in_grid r c \<and> b ! nat r ! nat c = p \<and>
     in_grid (r + dr) (c + dc) \<and> b ! nat (r + dr) ! nat (c + dc) = p \<and>
     in_grid (r + 2 * dr) (c + 2 * dc) \<and> b ! nat (r + 2 * dr) ! nat (c + 2 * dc) = p \<and>
     in_grid (r + 3 * dr) (c + 3 * dc) \<and> b ! nat (r + 3 * dr) ! nat (c + 3 * dc) = p"
  by (auto simp: run_of_four_def four_set)

lemma horizontal_win_iff:
  "horizontal_win p b \<longleftrightarrow> (\<exists>r c. run_of_four b p r c 0 1)"
proof
  assume "horizontal_win p b"
  then obtain c r where "c < 4" "r < 6"
     "b ! r ! c = p" "b ! r ! (c + 1) = p" "b ! r ! (c + 2) = p" "b ! r ! (c + 3) = p"
    by (auto simp: horizontal_win_def list_ex_iff)
  then have "run_of_four b p (int r) (int c) 0 1"
    by (simp add: run_of_four_unfold in_grid_def nat_add_distrib)
  then show "\<exists>r c. run_of_four b p r c 0 1" by blast
next
  assume "\<exists>r c. run_of_four b p r c 0 1"
  then obtain r c where h: "run_of_four b p r c 0 1" by blast
  from h have bd: "0 \<le> r" "r < 6" "0 \<le> c" "c < 4"
    by (simp_all add: run_of_four_unfold in_grid_def)
  then have n: "nat c < 4" "nat r < 6" by linarith+
  have "b ! nat r ! nat c = p" "b ! nat r ! (nat c + 1) = p"
     "b ! nat r ! (nat c + 2) = p" "b ! nat r ! (nat c + 3) = p"
    using h bd by (simp_all add: run_of_four_unfold nat_add_distrib)
  with n show "horizontal_win p b"
    unfolding horizontal_win_def list_ex_iff by (intro bexI[of _ "nat c"] bexI[of _ "nat r"]) auto
qed

lemma vertical_win_iff:
  "vertical_win p b \<longleftrightarrow> (\<exists>r c. run_of_four b p r c 1 0)"
proof
  assume "vertical_win p b"
  then obtain c r where "c < 7" "r < 3"
     "b ! r ! c = p" "b ! (r + 1) ! c = p" "b ! (r + 2) ! c = p" "b ! (r + 3) ! c = p"
    by (auto simp: vertical_win_def list_ex_iff)
  then have "run_of_four b p (int r) (int c) 1 0"
    by (simp add: run_of_four_unfold in_grid_def nat_add_distrib)
  then show "\<exists>r c. run_of_four b p r c 1 0" by blast
next
  assume "\<exists>r c. run_of_four b p r c 1 0"
  then obtain r c where h: "run_of_four b p r c 1 0" by blast
  from h have bd: "0 \<le> r" "r < 3" "0 \<le> c" "c < 7"
    by (simp_all add: run_of_four_unfold in_grid_def)
  then have n: "nat c < 7" "nat r < 3" by linarith+
  have "b ! nat r ! nat c = p" "b ! (nat r + 1) ! nat c = p"
     "b ! (nat r + 2) ! nat c = p" "b ! (nat r + 3) ! nat c = p"
    using h bd by (simp_all add: run_of_four_unfold nat_add_distrib)
  with n show "vertical_win p b"
    unfolding vertical_win_def list_ex_iff by (intro bexI[of _ "nat c"] bexI[of _ "nat r"]) auto
qed

lemma decreasing_win_iff:
  "decreasing_win p b \<longleftrightarrow> (\<exists>r c. run_of_four b p r c 1 1)"
proof
  assume "decreasing_win p b"
  then obtain c r where "c < 4" "r < 3"
     "b ! r ! c = p" "b ! (r + 1) ! (c + 1) = p" "b ! (r + 2) ! (c + 2) = p"
     "b ! (r + 3) ! (c + 3) = p"
    by (auto simp: decreasing_win_def list_ex_iff)
  then have "run_of_four b p (int r) (int c) 1 1"
    by (simp add: run_of_four_unfold in_grid_def nat_add_distrib)
  then show "\<exists>r c. run_of_four b p r c 1 1" by blast
next
  assume "\<exists>r c. run_of_four b p r c 1 1"
  then obtain r c where h: "run_of_four b p r c 1 1" by blast
  from h have bd: "0 \<le> r" "r < 3" "0 \<le> c" "c < 4"
    by (simp_all add: run_of_four_unfold in_grid_def)
  then have n: "nat c < 4" "nat r < 3" by linarith+
  have "b ! nat r ! nat c = p" "b ! (nat r + 1) ! (nat c + 1) = p"
     "b ! (nat r + 2) ! (nat c + 2) = p" "b ! (nat r + 3) ! (nat c + 3) = p"
    using h bd by (simp_all add: run_of_four_unfold nat_add_distrib)
  with n show "decreasing_win p b"
    unfolding decreasing_win_def list_ex_iff by (intro bexI[of _ "nat c"] bexI[of _ "nat r"]) auto
qed

lemma increasing_win_iff:
  "increasing_win p b \<longleftrightarrow> (\<exists>r c. run_of_four b p r c (-1) 1)"
proof
  assume "increasing_win p b"
  then obtain c r where m: "c \<in> set [0..<7 - 3]" "r \<in> set [3..<6]" and
     ch: "b ! r ! c = b ! (r - 1) ! (c + 1) \<and> b ! (r - 1) ! (c + 1) = b ! (r - 2) ! (c + 2) \<and>
        b ! (r - 2) ! (c + 2) = b ! (r - 3) ! (c + 3) \<and> b ! (r - 3) ! (c + 3) = p"
    unfolding increasing_win_def list_ex_iff by blast
  from ch have cells: "b ! r ! c = p" "b ! (r - 1) ! (c + 1) = p" "b ! (r - 2) ! (c + 2) = p"
     "b ! (r - 3) ! (c + 3) = p"
    by simp_all
  from m have rc: "c < 4" "3 \<le> r" "r < 6"
    by (simp_all only: set_upt atLeastLessThan_iff) simp
  have "nat (int r - 1) = r - 1" "nat (int r - 2) = r - 2" "nat (int r - 3) = r - 3"
    by linarith+
  with rc cells have "run_of_four b p (int r) (int c) (-1) 1"
    by (simp add: run_of_four_unfold in_grid_def nat_add_distrib)
  then show "\<exists>r c. run_of_four b p r c (-1) 1" by blast
next
  assume "\<exists>r c. run_of_four b p r c (-1) 1"
  then obtain r c where h: "run_of_four b p r c (-1) 1" by blast
  from h have bd: "3 \<le> r" "r < 6" "0 \<le> c" "c < 4"
    by (simp_all add: run_of_four_unfold in_grid_def)
  then have n: "nat c < 4" "3 \<le> nat r" "nat r < 6" by linarith+
  have e: "nat (r - 1) = nat r - 1" "nat (r - 2) = nat r - 2" "nat (r - 3) = nat r - 3"
    using bd by linarith+
  have "b ! nat r ! nat c = p" "b ! (nat r - 1) ! (nat c + 1) = p"
     "b ! (nat r - 2) ! (nat c + 2) = p" "b ! (nat r - 3) ! (nat c + 3) = p"
    using h bd e by (simp_all add: run_of_four_unfold nat_add_distrib)
  then have "b ! nat r ! nat c = b ! (nat r - 1) ! (nat c + 1) \<and>
        b ! (nat r - 1) ! (nat c + 1) = b ! (nat r - 2) ! (nat c + 2) \<and>
        b ! (nat r - 2) ! (nat c + 2) = b ! (nat r - 3) ! (nat c + 3) \<and>
        b ! (nat r - 3) ! (nat c + 3) = p"
    by simp
  moreover from n have "nat c \<in> set [0..<7 - 3]" "nat r \<in> set [3..<6]"
    by (simp_all only: set_upt atLeastLessThan_iff) simp_all
  ultimately show "increasing_win p b"
    unfolding increasing_win_def list_ex_iff by blast
qed

lemma any_win_iff:
  "horizontal_win p b \<or> vertical_win p b \<or> decreasing_win p b \<or> increasing_win p b
     \<longleftrightarrow> four_in_a_row b p"
  unfolding horizontal_win_iff vertical_win_iff decreasing_win_iff increasing_win_iff
    four_in_a_row_def by blast

lemma check_win_player_iff:
  "p \<noteq> 3 \<Longrightarrow> check_win p b = Some p \<longleftrightarrow> four_in_a_row b p"
  unfolding any_win_iff[symmetric] check_win_def by simp

lemma np_all_board_full: "wf_board b \<Longrightarrow> np_all b \<longleftrightarrow> board_full b"
  by (auto simp: wf_board_def np_all_def board_full_def list_all_length)

text \<open>
  Claim C7. Whenever the board holds a run of four cells of player \<open>p\<close>, in a row,
  in a column, down-right or up-right, anywhere on the grid, \<open>check_win\<close> returns \<open>p\<close>.
\<close>

theorem check_win_finds_every_four:
  "four_in_a_row b p \<Longrightarrow> check_win p b = Some p"
  using any_win_iff [of p b] by (auto simp: check_win_def)

theorem check_win_finds_every_four_witness:
  "four_in_a_row up_right_board 2 \<and> check_win 2 up_right_board = Some 2"
proof -
  have "run_of_four up_right_board 2 5 0 (- 1) 1"
    by (simp add: run_of_four_unfold in_grid_def up_right_board_def)
  then have f: "four_in_a_row up_right_board 2"
    unfolding four_in_a_row_def by blast
  from check_win_finds_every_four [OF f] f show ?thesis by simp
qed

text \<open>
  Claim C8. For a player 1 or 2 on a 6 x 7 board, \<open>check_win\<close> returns 3 (a draw)
  exactly when every cell is occupied and the player has no run of four; on a full
  board where the player has one, it returns the player.
\<close>

theorem draw_iff_full_and_no_four:
  "wf_board b \<Longrightarrow> p = 1 \<or> p = 2 \<Longrightarrow>
     (check_win p b = Some 3 \<longleftrightarrow> board_full b \<and> \<not> four_in_a_row b p) \<and>
     (board_full b \<and> four_in_a_row b p \<longrightarrow> check_win p b = Some p)"
  using any_win_iff [of p b] np_all_board_full [of b]
  by (auto simp: check_win_def)

lemma check_win_drawn_board: "check_win 1 drawn_board = Some 3"
  by code_simp

theorem draw_iff_full_and_no_four_witness:
  "wf_board drawn_board \<and> check_win 1 drawn_board = Some 3 \<and>
   board_full drawn_board \<and> \<not> four_in_a_row drawn_board 1 \<and>
   wf_board full_won_board \<and> board_full full_won_board \<and>
   four_in_a_row full_won_board 1 \<and> check_win 1 full_won_board = Some 1"
proof -
  have w: "wf_board drawn_board" by (simp add: wf_board_def drawn_board_def)
  have w2: "wf_board full_won_board" by (simp add: wf_board_def full_won_board_def)
  have "np_all full_won_board" by (simp add: np_all_def full_won_board_def)
  with w2 have full: "board_full full_won_board" by (simp add: np_all_board_full)
  have "run_of_four full_won_board 1 0 0 0 1"
    by (simp add: run_of_four_unfold in_grid_def full_won_board_def)
  then have f: "four_in_a_row full_won_board 1"
    unfolding four_in_a_row_def by blast
  from draw_iff_full_and_no_four [OF w, of 1] check_win_drawn_board
    draw_iff_full_and_no_four [OF w2, of 1] w w2 full f
  show ?thesis by simp
qed

section \<open>Column indices\<close>



section \<open>Construction\<close>

text \<open>
  Claim C9 as written fails: the constructor called with one player and no
  difficulty returns a game.
\<close>

theorem constructor_has_no_check_counterexample:
  "Connect4_init 1 None [] =
     Inr (\<lparr>container = 0, turn = 0, game_over = False, num_players = 1,
           bot_difficulty = None\<rparr>, [np_zeros 6 7])"
  by (simp add: Connect4_init_def)

text \<open>
  Claim C9, as amended. The constructor called with one player and no difficulty
  returns a game whose difficulty is None; it is the script's argument check that
  refuses this combination, before the constructor is called.
\<close>

theorem difficulty_checked_by_script_only:
  "Connect4_init 1 None h =
     Inr (\<lparr>container = length h, turn = 0, game_over = False, num_players = 1,
           bot_difficulty = None\<rparr>, h @ [np_zeros 6 7]) \<and>
   main_construct 1 None h = Inl SystemExit"
  by (simp add: Connect4_init_def main_construct_def)

section \<open>Placing a coin\<close>

lemma upt_6: "[0..<6] = [0,1,2,3,4,5]" by (simp add: upt_rec)

lemma rev_upt_6: "rev [0..<6] = [5,4,3,2,1,0]" by (simp add: upt_6)

text \<open>
  Without any assumption on the column but its empty top cell, the loop stops at
  an empty cell, the lowest one.
\<close>

lemma for_row_lowest_empty:
  assumes "b ! 0 ! c = 0"
  shows "for_row b c (rev [0..<6]) < 6"
    and "b ! for_row b c (rev [0..<6]) ! c = 0"
    and "\<forall>r<6. for_row b c (rev [0..<6]) < r \<longrightarrow> b ! r ! c \<noteq> 0"
  using assms by (auto simp: rev_upt_6 less_Suc_eq eval_nat_numeral)

text \<open>The row the loop stops at, when the column is stacked and its top cell is empty.\<close>

lemma for_row_stacked:
  assumes "b ! 0 ! c = 0" "stacked b c"
  shows "for_row b c (rev [0..<6]) = 5 - occupied_cells b c"
    and "b ! (5 - occupied_cells b c) ! c = 0"
  using assms
  by (auto simp: rev_upt_6 upt_6 stacked_def occupied_cells_def upt_rec[of _ 6] eval_nat_numeral)

lemma occupied_cells_le: "b ! 0 ! c = 0 \<Longrightarrow> occupied_cells b c \<le> 5"
  by (simp add: occupied_cells_def upt_6)

lemma wf_board_row: "wf_board b \<Longrightarrow> r < 6 \<Longrightarrow> length (b ! r) = 7"
  by (simp add: wf_board_def list_all_length)

lemma board_update_cell:
  assumes "wf_board b" "row < 6" "c < 7" "r < 6" "c' < 7"
  shows "b[row := (b ! row)[c := v]] ! r ! c' = (if r = row \<and> c' = c then v else b ! r ! c')"
proof -
  from assms have "length b = 6" "length (b ! row) = 7"
    by (simp_all add: wf_board_def wf_board_row)
  with assms show ?thesis
    by (cases "r = row") (simp_all add: nth_list_update)
qed

lemma np_index_less: "np_index 7 column = Inr c \<Longrightarrow> c < 7"
  by (auto simp: np_index_def split: if_splits)

text \<open>
  The coin of a successful \<open>place_coin\<close>, for any column index numpy accepts: \<open>c\<close> is
  the column the index selects.
\<close>

lemma place_coin_at_index:
  assumes "wf_board b" and "np_index 7 column = Inr c" and "b ! 0 ! c = 0" and "stacked b c"
    and "occupied_cells b c = k" and "player \<noteq> 0"
    and "b' = b[5 - k := (b ! (5 - k))[c := player]]"
  shows "place_coin column player b = Inr (Some True, b') \<and>
         b ! (5 - k) ! c = 0 \<and> b' ! (5 - k) ! c = player \<and>
         {(r, c'). r < 6 \<and> c' < 7 \<and> b' ! r ! c' \<noteq> b ! r ! c'} = {(5 - k, c)}"
proof -
  from assms(2) have c7: "c < 7" by (rule np_index_less)
  from assms have row: "for_row b c (rev [0..<6]) = 5 - k" and empty: "b ! (5 - k) ! c = 0"
    using for_row_stacked [of b c] by simp_all
  from \<open>wf_board b\<close> have len: "length b = 6" by (simp add: wf_board_def)
  have placed: "place_coin column player b = Inr (Some True, b')"
    using assms(2,3,7) row len by (simp add: place_coin_def check_move_allowed_def Let_def)
  have cell: "b' ! r ! c' = (if r = 5 - k \<and> c' = c then player else b ! r ! c')"
    if "r < 6" "c' < 7" for r c'
    using board_update_cell [OF \<open>wf_board b\<close> _ c7 that, of "5 - k" player] assms(7)
    by simp
  have "{(r, c'). r < 6 \<and> c' < 7 \<and> b' ! r ! c' \<noteq> b ! r ! c'} = {(5 - k, c)}"
    using cell empty \<open>player \<noteq> 0\<close> c7 by (auto split: if_splits)
  moreover have "b' ! (5 - k) ! c = player"
    using cell [of "5 - k" c] c7 by simp
  ultimately show ?thesis using placed empty by simp
qed

text \<open>
  Claim C4. On a 6 x 7 board whose column \<open>c\<close> is playable and obeys gravity (no coin
  above an empty cell) and holds exactly \<open>k\<close> occupied cells, \<open>place_coin\<close> succeeds
  and writes the coin of a player (a number other than 0) into row \<open>5 - k\<close>; that
  cell was empty, and it is the only cell of the board that changes.
\<close>

theorem place_coin_lands:
  assumes "wf_board b" and "c < 7" and "b ! 0 ! c = 0" and "stacked b c"
    and "occupied_cells b c = k" and "player \<noteq> 0"
    and "b' = b[5 - k := (b ! (5 - k))[c := player]]"
  shows "place_coin (int c) player b = Inr (Some True, b') \<and>
         b ! (5 - k) ! c = 0 \<and> b' ! (5 - k) ! c = player \<and>
         {(r, c'). r < 6 \<and> c' < 7 \<and> b' ! r ! c' \<noteq> b ! r ! c'} = {(5 - k, c)}"
proof -
  from \<open>c < 7\<close> have idx: "np_index 7 (int c) = Inr c" by (simp add: np_index_def)
  from assms(1) idx assms(3-7) show ?thesis by (rule place_coin_at_index)
qed

theorem place_coin_lands_witness:
  "wf_board two_coins_board \<and> two_coins_board ! 0 ! 3 = 0 \<and> stacked two_coins_board 3 \<and>
   occupied_cells two_coins_board 3 = 2 \<and>
   place_coin 3 1 two_coins_board =
     Inr (Some True,
       [[0,0,0,0,0,0,0],
        [0,0,0,0,0,0,0],
        [0,0,0,0,0,0,0],
        [0,0,0,1,0,0,0],
        [0,0,0,2,0,0,0],
        [0,0,0,1,0,0,0]])"
proof -
  have w: "wf_board two_coins_board" by (simp add: wf_board_def two_coins_board_def)
  have t: "two_coins_board ! 0 ! 3 = 0" by (simp add: two_coins_board_def)
  have s: "stacked two_coins_board 3" by code_simp
  have k: "occupied_cells two_coins_board 3 = 2" by code_simp
  have u: "two_coins_board[5 - 2 := (two_coins_board ! (5 - 2))[3 := 1]] =
       [[0,0,0,0,0,0,0],
        [0,0,0,0,0,0,0],
        [0,0,0,0,0,0,0],
        [0,0,0,1,0,0,0],
        [0,0,0,2,0,0,0],
        [0,0,0,1,0,0,0]]"
    by (simp add: two_coins_board_def)
  from place_coin_lands [OF w _ t s k _ u [symmetric]] w t s k
  show ?thesis by simp
qed


lemma stacked_np_zeros: "c < 7 \<Longrightarrow> stacked (np_zeros 6 7) c"
  by (simp add: stacked_def np_zeros_def list_all_iff)

lemma wf_board_np_zeros: "wf_board (np_zeros 6 7)"
  by (simp add: wf_board_def np_zeros_def list_all_iff)

lemma stacked_same_cells:
  "(\<And>r. r < 6 \<Longrightarrow> b' ! r ! c = b ! r ! c) \<Longrightarrow> stacked b' c = stacked b c"
  by (simp add: stacked_def list_all_iff cong: conj_cong imp_cong)

lemma stacked_after_coin:
  assumes "b ! 0 ! c = 0" and "stacked b c" and "player \<noteq> 0"
    and cells: "\<And>r. r < 6 \<Longrightarrow>
       b' ! r ! c = (if r = 5 - occupied_cells b c then player else b ! r ! c)"
  shows "stacked b' c"
proof -
  have c6: "b' ! 0 ! c = (if 0 = 5 - occupied_cells b c then player else b ! 0 ! c)"
    "b' ! 1 ! c = (if 1 = 5 - occupied_cells b c then player else b ! 1 ! c)"
    "b' ! 2 ! c = (if 2 = 5 - occupied_cells b c then player else b ! 2 ! c)"
    "b' ! 3 ! c = (if 3 = 5 - occupied_cells b c then player else b ! 3 ! c)"
    "b' ! 4 ! c = (if 4 = 5 - occupied_cells b c then player else b ! 4 ! c)"
    "b' ! 5 ! c = (if 5 = 5 - occupied_cells b c then player else b ! 5 ! c)"
    using cells by simp_all
  show ?thesis
    using assms(1-3) c6
    by (auto simp: upt_6 stacked_def occupied_cells_def upt_rec[of _ 6] eval_nat_numeral
        split: if_splits)
qed

lemma wf_board_update:
  "wf_board b \<Longrightarrow> wf_board (b[row := (b ! row)[c := v]])"
  by (cases "row < length b") (auto simp: wf_board_def list_all_length nth_list_update)

text \<open>
  Gravity is an invariant of the game's board: it holds of the empty board, and
  \<open>place_coin\<close> keeps it.
\<close>

lemma place_coin_keeps_stacked:
  assumes wf: "wf_board b" and st: "\<And>c. c < 7 \<Longrightarrow> stacked b c" and "player \<noteq> 0"
    and pl: "place_coin column player b = Inr (res, b')"
  shows "wf_board b' \<and> (\<forall>c<7. stacked b' c)"
proof (cases "np_index 7 column")
  case (Inl e)
  with pl show ?thesis by (simp add: place_coin_def check_move_allowed_def)
next
  case (Inr c0)
  then have c0: "c0 < 7" by (rule np_index_less)
  show ?thesis
  proof (cases "b ! 0 ! c0 = 0")
    case False
    with pl Inr have "b' = b" by (simp add: place_coin_def check_move_allowed_def)
    with wf st show ?thesis by simp
  next
    case True
    from wf have len: "length b = 6" by (simp add: wf_board_def)
    define m where "m = 5 - occupied_cells b c0"
    from True st [OF c0] have "for_row b c0 (rev [0..<6]) = m"
      unfolding m_def by (rule for_row_stacked)
    with pl Inr True len have b': "b' = b[m := (b ! m)[c0 := player]]"
      by (simp add: place_coin_def check_move_allowed_def Let_def)
    have m: "m < 6" by (simp add: m_def)
    have cell: "b' ! r ! c = (if r = m \<and> c = c0 then player else b ! r ! c)"
      if "r < 6" "c < 7" for r c
      unfolding b' by (rule board_update_cell [OF wf m c0 that])
    have "stacked b' c" if "c < 7" for c
    proof (cases "c = c0")
      case True
      with cell c0 have "\<And>r. r < 6 \<Longrightarrow>
          b' ! r ! c0 = (if r = 5 - occupied_cells b c0 then player else b ! r ! c0)"
        by (simp add: m_def)
      from stacked_after_coin [OF \<open>b ! 0 ! c0 = 0\<close> st [OF c0] \<open>player \<noteq> 0\<close> this] True
      show ?thesis by simp
    next
      case False
      with cell that have "\<And>r. r < 6 \<Longrightarrow> b' ! r ! c = b ! r ! c" by simp
      then have "stacked b' c = stacked b c" by (rule stacked_same_cells)
      with st [OF that] show ?thesis by simp
    qed
    moreover have "wf_board b'" unfolding b' using wf by (rule wf_board_update)
    ultimately show ?thesis by simp
  qed
qed


lemma place_coin_full:
  "np_index 7 column = Inr c \<Longrightarrow> b ! 0 ! c \<noteq> 0 \<Longrightarrow> place_coin column player b = Inr (None, b)"
  by (simp add: place_coin_def check_move_allowed_def)

text \<open>
  Claim C5. When the top cell of the column is occupied, \<open>place_coin\<close> reports the
  failure (it returns None, not True) and the array is the same as before; the
  click that asked for it leaves the whole game as it was (turn and \<open>game_over\<close>
  included) and ends the handling of the events.
\<close>

theorem full_column_changes_nothing:
  assumes "np_index 7 column = Inr c" and "b ! 0 ! c \<noteq> 0"
    and "h ! container self = b" and "posx div SQUARESIZE = column"
  shows "place_coin column player b = Inr (None, b) \<and>
         self_place_coin column player self h = Inr (None, h) \<and>
         mouse_button_down posx ds self h = (Returned Break, ds, self, h) \<and>
         event_handler (MOUSEBUTTONDOWN posx # evs) ds self h = (Returned (), ds, self, h)"
proof -
  have p: "place_coin column q b = Inr (None, b)" for q
    using assms(1,2) by (rule place_coin_full)
  have sp: "self_place_coin column q self h = Inr (None, h)" for q
    using p [of q] assms(3) list_update_id [of h "container self"]
    by (simp add: self_place_coin_def)
  have m: "mouse_button_down posx ds self h = (Returned Break, ds, self, h)"
    using sp assms(4) by (simp add: mouse_button_down_def Let_def)
  from p sp m show ?thesis by simp
qed

theorem full_column_changes_nothing_witness:
  "np_index 7 2 = Inr 2 \<and> full_column_board ! 0 ! 2 \<noteq> 0 \<and>
   place_coin 2 2 full_column_board = Inr (None, full_column_board) \<and>
   mouse_button_down 250 [] \<lparr>container = 0, turn = 1, game_over = False, num_players = 2,
       bot_difficulty = None\<rparr> [full_column_board]
     = (Returned Break, [], \<lparr>container = 0, turn = 1, game_over = False, num_players = 2,
       bot_difficulty = None\<rparr>, [full_column_board])"
proof -
  have i: "np_index 7 2 = Inr 2" by (simp add: np_index_def)
  have t: "full_column_board ! 0 ! 2 \<noteq> 0" by (simp add: full_column_board_def)
  have a: "[full_column_board] ! container \<lparr>container = 0, turn = 1, game_over = False,
      num_players = 2, bot_difficulty = None\<rparr> = full_column_board" by simp
  have d: "(250::int) div SQUARESIZE = 2" by (simp add: SQUARESIZE_def)
  from full_column_changes_nothing [OF i t a d, of 2 "[]"] i t show ?thesis by simp
qed


section \<open>Negative column indices\<close>

lemma np_index_negative: "- 7 \<le> c \<Longrightarrow> c \<le> - 1 \<Longrightarrow> np_index 7 c = Inr (nat (7 + c))"
  by (simp add: np_index_def)

lemma np_index_wrapped: "- 7 \<le> c \<Longrightarrow> c \<le> - 1 \<Longrightarrow> np_index 7 (7 + c) = Inr (nat (7 + c))"
  by (simp add: np_index_def)

text \<open>
  Claim C10. A column \<open>c\<close> from -7 to -1 is not rejected but counted from the right,
  as column \<open>col = 7 + c\<close>: \<open>check_move_allowed\<close> answers whether the top cell of
  column \<open>col\<close> is empty, and \<open>place_coin\<close> does what it does for \<open>col\<close>. When that top
  cell is empty it returns True and has written the coin into column \<open>col\<close>, at the
  row its loop stops at, and otherwise it returns None and writes nothing. On a 6 x 7 board
  whose column \<open>col\<close> obeys gravity the coin lies in row 5 minus the number of
  occupied cells of column \<open>col\<close>, and that cell is the only one that changes.
\<close>

theorem negative_column_wraps:
  assumes "- 7 \<le> c" and "c \<le> - 1" and "col = nat (7 + c)"
    and "row = for_row b col (rev [0..<length b])"
    and "k = occupied_cells b col"
  shows "col < 7 \<and>
         check_move_allowed c b = Inr (b ! 0 ! col = 0) \<and>
         check_move_allowed c b = check_move_allowed (7 + c) b \<and>
         place_coin c p b = place_coin (7 + c) p b \<and>
         place_coin c p b =
           (if b ! 0 ! col = 0 then Inr (Some True, b[row := (b ! row)[col := p]])
            else Inr (None, b)) \<and>
         (wf_board b \<and> b ! 0 ! col = 0 \<and> stacked b col \<and> p \<noteq> 0 \<longrightarrow>
            place_coin c p b = Inr (Some True, b[5 - k := (b ! (5 - k))[col := p]]) \<and>
            b ! (5 - k) ! col = 0 \<and>
            b[5 - k := (b ! (5 - k))[col := p]] ! (5 - k) ! col = p \<and>
            {(r, c'). r < 6 \<and> c' < 7 \<and>
               b[5 - k := (b ! (5 - k))[col := p]] ! r ! c' \<noteq> b ! r ! c'} = {(5 - k, col)})"
proof -
  from assms(1-3) have idx: "np_index 7 c = Inr col" by (simp add: np_index_negative)
  from assms(1-3) have idx': "np_index 7 (7 + c) = Inr col" by (simp add: np_index_wrapped)
  from idx have c7: "col < 7" by (rule np_index_less)
  have cma: "check_move_allowed c b = Inr (b ! 0 ! col = 0)"
    using idx by (simp add: check_move_allowed_def)
  have cma': "check_move_allowed (7 + c) b = Inr (b ! 0 ! col = 0)"
    using idx' by (simp add: check_move_allowed_def)
  have pc: "place_coin c p b =
      (if b ! 0 ! col = 0 then Inr (Some True, b[row := (b ! row)[col := p]])
       else Inr (None, b))"
    using idx assms(4) by (simp add: place_coin_def check_move_allowed_def Let_def)
  have pc': "place_coin (7 + c) p b =
      (if b ! 0 ! col = 0 then Inr (Some True, b[row := (b ! row)[col := p]])
       else Inr (None, b))"
    using idx' assms(4) by (simp add: place_coin_def check_move_allowed_def Let_def)
  have grav: "place_coin c p b = Inr (Some True, b[5 - k := (b ! (5 - k))[col := p]]) \<and>
      b ! (5 - k) ! col = 0 \<and>
      b[5 - k := (b ! (5 - k))[col := p]] ! (5 - k) ! col = p \<and>
      {(r, c'). r < 6 \<and> c' < 7 \<and>
         b[5 - k := (b ! (5 - k))[col := p]] ! r ! c' \<noteq> b ! r ! c'} = {(5 - k, col)}"
    if "wf_board b" "b ! 0 ! col = 0" "stacked b col" "p \<noteq> 0"
    using place_coin_at_index [OF that(1) idx that(2,3) assms(5) [symmetric] that(4) refl] .
  from c7 cma cma' pc pc' grav show ?thesis by simp
qed

theorem negative_column_wraps_witness:
  "(- 7 :: int) \<le> - 4 \<and> (- 4 :: int) \<le> - 1 \<and> (3 :: nat) = nat (7 + - 4) \<and>
   wf_board two_coins_board \<and> two_coins_board ! 0 ! 3 = 0 \<and> stacked two_coins_board 3 \<and>
   occupied_cells two_coins_board 3 = 2 \<and>
   check_move_allowed (- 4) two_coins_board = Inr True \<and>
   place_coin (- 4) 1 two_coins_board = place_coin 3 1 two_coins_board \<and>
   place_coin (- 4) 1 two_coins_board =
     Inr (Some True,
       [[0,0,0,0,0,0,0],
        [0,0,0,0,0,0,0],
        [0,0,0,0,0,0,0],
        [0,0,0,1,0,0,0],
        [0,0,0,2,0,0,0],
        [0,0,0,1,0,0,0]])"
proof -
  have w: "wf_board two_coins_board" by (simp add: wf_board_def two_coins_board_def)
  have t: "two_coins_board ! 0 ! 3 = 0" by (simp add: two_coins_board_def)
  have s: "stacked two_coins_board 3" by code_simp
  have k: "occupied_cells two_coins_board 3 = 2" by code_simp
  have u: "two_coins_board[5 - 2 := (two_coins_board ! (5 - 2))[3 := 1]] =
       [[0,0,0,0,0,0,0],
        [0,0,0,0,0,0,0],
        [0,0,0,0,0,0,0],
        [0,0,0,1,0,0,0],
        [0,0,0,2,0,0,0],
        [0,0,0,1,0,0,0]]"
    by (simp add: two_coins_board_def)
  have c: "(3 :: nat) = nat (7 + - 4)" by simp
  have one: "(1 :: int) \<noteq> 0" by simp
  note th = negative_column_wraps [of "- 4" 3 _ two_coins_board 2 1, OF _ _ c refl k [symmetric]]
  have lo: "(- 7 :: int) \<le> - 4" and hi: "(- 4 :: int) \<le> - 1" by simp_all
  have a: "check_move_allowed (- 4) two_coins_board = Inr (two_coins_board ! 0 ! 3 = 0)"
    using th [OF lo hi] by blast
  have e: "place_coin (- 4) 1 two_coins_board = place_coin (7 + - 4) 1 two_coins_board"
    using th [OF lo hi] by blast
  have g: "place_coin (- 4) 1 two_coins_board =
      Inr (Some True, two_coins_board[5 - 2 := (two_coins_board ! (5 - 2))[3 := 1]])"
    using th [OF lo hi] w t s one by blast
  from a t have a': "check_move_allowed (- 4) two_coins_board = Inr True" by simp
  from e have e': "place_coin (- 4) 1 two_coins_board = place_coin 3 1 two_coins_board"
    by simp
  from g u have g': "place_coin (- 4) 1 two_coins_board =
     Inr (Some True,
       [[0,0,0,0,0,0,0],
        [0,0,0,0,0,0,0],
        [0,0,0,0,0,0,0],
        [0,0,0,1,0,0,0],
        [0,0,0,2,0,0,0],
        [0,0,0,1,0,0,0]])"
    by simp
  from lo hi c w t s k a' e' g' show ?thesis by blast
qed

section \<open>The bot: winning and blocking\<close>

lemma bot_inv_set_current_board:
  assumes "curr_board < length h" "h ! curr_board = b"
    and "set_current_board curr_board self h = (self1, h1)"
  shows "bot_inv curr_board b self1 h1"
  using assms by (auto simp: set_current_board_def bot_inv_def nth_append)

lemma place_coin_no_error: "\<not> isl (np_index 7 col) \<Longrightarrow> \<exists>res b1. place_coin col player b = Inr (res, b1)"
  by (cases "np_index 7 col") (auto simp: place_coin_def check_move_allowed_def Let_def)

lemma place_coin_falsy:
  "place_coin col player b = Inr (res, b1) \<Longrightarrow> \<not> truthy res \<Longrightarrow> b1 = b"
  by (auto simp: place_coin_def check_move_allowed_def Let_def split: sum.splits if_splits)

lemma place_4th_cols_step_no_win:
  assumes inv: "bot_inv curr_board b self h" and ok: "\<not> isl (np_index 7 col)"
    and nw: "\<not> wins player b col"
  shows "\<exists>self1 h1. bot_inv curr_board b self1 h1 \<and>
     place_4th_cols curr_board player (col # cols) self h =
     place_4th_cols curr_board player cols self1 h1"
proof -
  from place_coin_no_error [OF ok] obtain res b1
    where pc: "place_coin col player b = Inr (res, b1)" by blast
  from inv have hb: "h ! container self = b" by (simp add: bot_inv_def)
  show ?thesis
  proof (cases "truthy res")
    case False
    with pc have "b1 = b" by (rule place_coin_falsy)
    with pc hb have sp: "self_place_coin col player self h = Inr (res, h)"
      using list_update_id [of h "container self"] by (simp add: self_place_coin_def)
    with False inv show ?thesis by auto
  next
    case True
    from pc hb have sp: "self_place_coin col player self h = Inr (res, h[container self := b1])"
      by (simp add: self_place_coin_def)
    from inv have cw: "self_check_win player self (h[container self := b1]) = check_win player b1"
      by (simp add: self_check_win_def bot_inv_def)
    from nw pc True have ncw: "check_win player b1 \<noteq> Some player" by (simp add: wins_def)
    obtain self2 h2 where
      scb: "set_current_board curr_board self (h[container self := b1]) = (self2, h2)"
      by (cases "set_current_board curr_board self (h[container self := b1])")
    from inv have "curr_board < length (h[container self := b1])"
      "h[container self := b1] ! curr_board = b"
      by (simp_all add: bot_inv_def)
    from bot_inv_set_current_board [OF this scb] have "bot_inv curr_board b self2 h2" .
    with sp True cw ncw scb show ?thesis by auto
  qed
qed

lemma place_4th_cols_step_win:
  assumes inv: "bot_inv curr_board b self h" and w: "wins player b col"
  shows "fst (place_4th_cols curr_board player (col # cols) self h) = Returned (Some col)"
proof -
  from w obtain res b1
    where pc: "place_coin col player b = Inr (res, b1)" and t: "truthy res"
      and cw: "check_win player b1 = Some player"
    by (auto simp: wins_def split: sum.splits)
  from inv have hb: "h ! container self = b" by (simp add: bot_inv_def)
  from pc hb have sp: "self_place_coin col player self h = Inr (res, h[container self := b1])"
    by (simp add: self_place_coin_def)
  from inv have "self_check_win player self (h[container self := b1]) = check_win player b1"
    by (simp add: self_check_win_def bot_inv_def)
  with sp t cw show ?thesis by simp
qed

lemma place_4th_cols_first:
  assumes "bot_inv curr_board b self h"
    and "\<forall>c\<in>set before. \<not> isl (np_index 7 c) \<and> \<not> wins player b c"
    and "wins player b col"
  shows "fst (place_4th_cols curr_board player (before @ col # rest) self h) = Returned (Some col)"
  using assms
proof (induction before arbitrary: self h)
  case Nil
  then show ?case using place_4th_cols_step_win [of curr_board b self h player col rest] by simp
next
  case (Cons c before)
  from Cons.prems have "\<not> isl (np_index 7 c)" "\<not> wins player b c" by simp_all
  from place_4th_cols_step_no_win [OF Cons.prems(1) this, of "before @ col # rest"]
  obtain self1 h1 where inv1: "bot_inv curr_board b self1 h1"
    and eq: "place_4th_cols curr_board player ((c # before) @ col # rest) self h =
       place_4th_cols curr_board player (before @ col # rest) self1 h1"
    by auto
  from Cons.IH [OF inv1] Cons.prems have
    "fst (place_4th_cols curr_board player (before @ col # rest) self1 h1) = Returned (Some col)"
    by simp
  with eq show ?case by simp
qed

lemma place_4th_cols_none:
  assumes "bot_inv curr_board b self h"
    and "\<forall>c\<in>set cols. \<not> isl (np_index 7 c) \<and> \<not> wins player b c"
  shows "\<exists>self1 h1. place_4th_cols curr_board player cols self h = (Returned None, self1, h1) \<and>
     bot_inv curr_board b self1 h1"
  using assms
proof (induction cols arbitrary: self h)
  case Nil
  then show ?case by simp
next
  case (Cons c cols)
  from Cons.prems have "\<not> isl (np_index 7 c)" "\<not> wins player b c" by simp_all
  from place_4th_cols_step_no_win [OF Cons.prems(1) this, of cols]
  obtain self1 h1 where inv1: "bot_inv curr_board b self1 h1"
    and eq: "place_4th_cols curr_board player (c # cols) self h =
       place_4th_cols curr_board player cols self1 h1"
    by auto
  from Cons.IH [OF inv1] Cons.prems eq show ?case by simp
qed

lemma columns_split:
  "col < 7 \<Longrightarrow> map int [0..<7] = map int [0..<col] @ int col # map int [Suc col..<7]"
proof -
  assume "col < 7"
  then have "[0..<7] = [0..<col] @ col # [Suc col..<7]"
    using upt_add_eq_append [of 0 col "7 - col"] upt_conv_Cons [of col 7] by simp
  then show ?thesis by simp
qed

lemma np_index_column: "c < 7 \<Longrightarrow> np_index 7 (int c) = Inr c"
  by (simp add: np_index_def)

lemma wins_completes_four:
  "p = 1 \<or> p = 2 \<Longrightarrow> wins p b (int col) \<longleftrightarrow> completes_four p b col"
proof -
  assume p: "p = 1 \<or> p = 2"
  then have p3: "p \<noteq> 3" by auto
  have r: "res = Some True \<longleftrightarrow> truthy res" if "place_coin (int col) p b = Inr (res, b1)" for res b1
    using that by (cases res) (auto simp: place_coin_def check_move_allowed_def Let_def
        split: option.splits if_splits)
  show ?thesis
    unfolding wins_def completes_four_def
    by (auto simp: check_win_player_iff [OF p3] r split: sum.splits)
qed

text \<open>
  Claim C1. When some column of 0..6 completes four in a row for the bot (player 2),
  \<open>place_4th_coin\<close> returns the smallest such column: the bot's own winning columns
  are all tried, in ascending order, before any column of the opponent, whatever
  the opponent could win.
\<close>

theorem place_4th_coin_own_win_first:
  assumes "curr_board < length h" and "h ! curr_board = b" and "col < 7"
    and "completes_four 2 b col" and "\<forall>c<col. \<not> completes_four 2 b c"
  shows "fst (place_4th_coin curr_board self h) = Returned (Some (int col))"
proof -
  obtain self1 h1 where scb: "set_current_board curr_board self h = (self1, h1)"
    by (cases "set_current_board curr_board self h")
  from bot_inv_set_current_board [OF assms(1,2) scb] have inv: "bot_inv curr_board b self1 h1" .
  have before: "\<forall>c\<in>set (map int [0..<col]). \<not> isl (np_index 7 c) \<and> \<not> wins 2 b c"
    using assms(3,5) by (auto simp: wins_completes_four np_index_column)
  have w: "wins 2 b (int col)" using assms(4) by (simp add: wins_completes_four)
  from place_4th_cols_first [OF inv before w, of "map int [Suc col..<7]"]
  have "fst (place_4th_cols curr_board 2 (map int [0..<7]) self1 h1) = Returned (Some (int col))"
    by (simp add: columns_split [OF assms(3)])
  then obtain self2 h2 where
    "place_4th_cols curr_board 2 (map int [0..<7]) self1 h1 = (Returned (Some (int col)), self2, h2)"
    by (cases "place_4th_cols curr_board 2 (map int [0..<7]) self1 h1") auto
  moreover have "rev (map int [1..<3]) = [2, 1]" by (simp add: upt_rec)
  ultimately show ?thesis using scb by (simp add: place_4th_coin_def)
qed


lemma wins_own_win_board:
  "\<not> wins 2 own_win_board 0" "\<not> wins 2 own_win_board 1" "\<not> wins 2 own_win_board 2"
  "wins 2 own_win_board 3" "wins 1 own_win_board 1"
  by code_simp+

theorem place_4th_coin_own_win_first_witness:
  "completes_four 2 own_win_board 3 \<and> \<not> completes_four 2 own_win_board 0 \<and>
   \<not> completes_four 2 own_win_board 1 \<and> \<not> completes_four 2 own_win_board 2 \<and>
   completes_four 1 own_win_board 1 \<and>
   fst (place_4th_coin 0 hard_bot [own_win_board, np_zeros 6 7]) = Returned (Some 3)"
proof -
  have w: "completes_four 2 own_win_board 3"
    using wins_own_win_board(4) wins_completes_four [of 2 own_win_board 3] by simp
  have o: "completes_four 1 own_win_board 1"
    using wins_own_win_board(5) wins_completes_four [of 1 own_win_board 1] by simp
  have n3: "\<not> completes_four 2 own_win_board 0" "\<not> completes_four 2 own_win_board 1"
    "\<not> completes_four 2 own_win_board 2"
    using wins_own_win_board(1-3) wins_completes_four [of 2 own_win_board 0]
      wins_completes_four [of 2 own_win_board 1] wins_completes_four [of 2 own_win_board 2]
    by simp_all
  have "\<not> completes_four 2 own_win_board c" if "c < 3" for c
  proof -
    from that have "c = 0 \<or> c = 1 \<or> c = 2" by auto
    then show ?thesis using n3 by auto
  qed
  then have n: "\<forall>c<3. \<not> completes_four 2 own_win_board c" by simp
  have l: "0 < length [own_win_board, np_zeros 6 7]" by simp
  have a: "[own_win_board, np_zeros 6 7] ! 0 = own_win_board" by simp
  from place_4th_coin_own_win_first [OF l a _ w n, of hard_bot] w n3 o show ?thesis by simp
qed


section \<open>The bot: the caller's board\<close>

lemma prefix_list_update:
  "prefix h0 h \<Longrightarrow> length h0 \<le> i \<Longrightarrow> prefix h0 (h[i := x])"
  by (auto simp: prefix_def list_update_append)

lemma fresh_self_place_coin:
  "fresh h0 self h \<Longrightarrow> self_place_coin col player self h = Inr (res, h1) \<Longrightarrow> fresh h0 self h1"
  by (auto simp: fresh_def self_place_coin_def prefix_list_update split: sum.splits)

lemma fresh_set_current_board:
  "prefix h0 h \<Longrightarrow> set_current_board a self h = (self1, h1) \<Longrightarrow> fresh h0 self1 h1"
  by (auto simp: fresh_def set_current_board_def prefix_length_le)

lemma fresh_prefix: "fresh h0 self h \<Longrightarrow> prefix h0 h"
  by (simp add: fresh_def)

lemma fresh_place_4th_cols:
  "fresh h0 self h \<Longrightarrow> place_4th_cols a player cols self h = (r, self1, h1) \<Longrightarrow>
     fresh h0 self1 h1"
proof (induction cols arbitrary: self h)
  case Nil
  then show ?case by simp
next
  case (Cons col cols)
  show ?case
  proof (cases "self_place_coin col player self h")
    case (Inl e)
    with Cons.prems show ?thesis by simp
  next
    case (Inr p)
    obtain res h2 where p: "p = (res, h2)" by (cases p)
    from fresh_self_place_coin [OF Cons.prems(1)] Inr p have f2: "fresh h0 self h2" by simp
    obtain self3 h3 where s: "set_current_board a self h2 = (self3, h3)"
      by (cases "set_current_board a self h2")
    from fresh_set_current_board [OF fresh_prefix [OF f2] s] have f3: "fresh h0 self3 h3" .
    from Cons.prems(2) Inr p s f2 Cons.IH [OF f2] Cons.IH [OF f3]
    show ?thesis by (auto split: if_splits)
  qed
qed

lemma fresh_place_4th_players:
  "fresh h0 self h \<Longrightarrow> place_4th_players a players self h = (r, self1, h1) \<Longrightarrow>
     fresh h0 self1 h1"
proof (induction players arbitrary: self h)
  case Nil
  then show ?case by simp
next
  case (Cons player players)
  obtain r2 self2 h2 where c: "place_4th_cols a player (map int [0..<7]) self h = (r2, self2, h2)"
    by (cases "place_4th_cols a player (map int [0..<7]) self h")
  from fresh_place_4th_cols [OF Cons.prems(1) c] have f2: "fresh h0 self2 h2" .
  from Cons.prems(2) c f2 Cons.IH [OF f2] show ?case
    by (auto split: outcome.splits option.splits)
qed

lemma fresh_place_4th_coin:
  "prefix h0 h \<Longrightarrow> place_4th_coin a self h = (r, self1, h1) \<Longrightarrow> fresh h0 self1 h1"
proof -
  assume p: "prefix h0 h" and r: "place_4th_coin a self h = (r, self1, h1)"
  obtain self2 h2 where s: "set_current_board a self h = (self2, h2)"
    by (cases "set_current_board a self h")
  from fresh_set_current_board [OF p s] have "fresh h0 self2 h2" .
  from fresh_place_4th_players [OF this] r s show ?thesis by (simp add: place_4th_coin_def)
qed

lemma fresh_check_mistake_cols:
  "fresh h0 self h \<Longrightarrow> check_mistake_cols u cols self h = (r, self1, h1) \<Longrightarrow>
     fresh h0 self1 h1"
proof (induction cols arbitrary: self h)
  case Nil
  then show ?case by simp
next
  case (Cons col cols)
  show ?case
  proof (cases "self_place_coin col 1 self h")
    case (Inl e)
    with Cons.prems show ?thesis by simp
  next
    case (Inr p)
    obtain res h2 where p: "p = (res, h2)" by (cases p)
    from fresh_self_place_coin [OF Cons.prems(1)] Inr p have f2: "fresh h0 self h2" by simp
    obtain self3 h3 where s: "set_current_board u self h2 = (self3, h3)"
      by (cases "set_current_board u self h2")
    from fresh_set_current_board [OF fresh_prefix [OF f2] s] have f3: "fresh h0 self3 h3" .
    from Cons.prems(2) Inr p s f2 Cons.IH [OF f2] Cons.IH [OF f3]
    show ?thesis by (auto split: if_splits)
  qed
qed

lemma fresh_check_mistake:
  "prefix h0 h \<Longrightarrow> check_mistake column a self h = (r, self1, h1) \<Longrightarrow> fresh h0 self1 h1"
proof -
  assume p: "prefix h0 h" and r: "check_mistake column a self h = (r, self1, h1)"
  obtain self2 h2 where s: "set_current_board a self h = (self2, h2)"
    by (cases "set_current_board a self h")
  from fresh_set_current_board [OF p s] have f2: "fresh h0 self2 h2" .
  show ?thesis
  proof (cases "self_place_coin column 2 self2 h2")
    case (Inl e)
    with r s f2 show ?thesis by (simp add: check_mistake_def)
  next
    case (Inr q)
    obtain res h3 where q: "q = (res, h3)" by (cases q)
    from fresh_self_place_coin [OF f2] Inr q have f3: "fresh h0 self2 h3" by simp
    from r s Inr q f3 fresh_check_mistake_cols [OF f3] show ?thesis
      by (auto simp: check_mistake_def Let_def split: if_splits)
  qed
qed

lemma fresh_random_loop:
  "fresh h0 self h \<Longrightarrow> random_loop ds self h = (r, ds1, self1, h1) \<Longrightarrow> fresh h0 self1 h1"
proof (induction ds arbitrary: h)
  case Nil
  then show ?case by simp
next
  case (Cons d ds)
  show ?case
  proof (cases "self_place_coin (randint 0 7 d) 2 self h")
    case (Inl e)
    with Cons.prems show ?thesis by simp
  next
    case (Inr p)
    obtain res h2 where p: "p = (res, h2)" by (cases p)
    from fresh_self_place_coin [OF Cons.prems(1)] Inr p have f2: "fresh h0 self h2" by simp
    from Cons.prems(2) Inr p f2 Cons.IH [OF f2] show ?thesis
      by (auto simp: Let_def split: if_splits)
  qed
qed

lemma fresh_random_move:
  "prefix h0 h \<Longrightarrow> random_move a ds self h = (r, ds1, self1, h1) \<Longrightarrow> fresh h0 self1 h1"
proof -
  assume p: "prefix h0 h" and r: "random_move a ds self h = (r, ds1, self1, h1)"
  obtain self2 h2 where s: "set_current_board a self h = (self2, h2)"
    by (cases "set_current_board a self h")
  from fresh_set_current_board [OF p s] have "fresh h0 self2 h2" .
  from fresh_random_loop [OF this] r s show ?thesis by (simp add: random_move_def)
qed

lemma prefix_count_available:
  "prefix h0 h \<Longrightarrow> count_available a cols n self h = (r, self1, h1) \<Longrightarrow> prefix h0 h1"
proof (induction cols arbitrary: n self h)
  case Nil
  then show ?case by simp
next
  case (Cons col cols)
  show ?case
  proof (cases "self_check_move_allowed col self h")
    case (Inl e)
    with Cons.prems show ?thesis by simp
  next
    case (Inr allowed)
    obtain r2 self2 h2 where c: "check_mistake col a self h = (r2, self2, h2)"
      by (cases "check_mistake col a self h")
    from fresh_check_mistake [OF Cons.prems(1) c] have p2: "prefix h0 h2"
      by (rule fresh_prefix)
    from Cons.prems Inr c p2 Cons.IH [OF p2] Cons.IH [OF Cons.prems(1)]
    show ?thesis by (auto split: if_splits outcome.splits)
  qed
qed

lemma prefix_select_randomly:
  "prefix h0 h \<Longrightarrow> select_randomly a ds self h = (r, ds1, self1, h1) \<Longrightarrow> prefix h0 h1"
proof (induction a ds self h rule: select_randomly.induct)
  case (1 a ds self h)
  obtain r2 ds2 self2 h2 where m: "random_move a ds self h = (r2, ds2, self2, h2)"
    by (cases "random_move a ds self h")
  from fresh_random_move [OF "1.prems"(1) m] have p2: "prefix h0 h2" by (rule fresh_prefix)
  show ?case
  proof (cases r2)
    case (Returned rand_move)
    obtain r3 self3 h3 where c: "check_mistake rand_move a self2 h2 = (r3, self3, h3)"
      by (cases "check_mistake rand_move a self2 h2")
    from fresh_check_mistake [OF p2 c] have p3: "prefix h0 h3" by (rule fresh_prefix)
    show ?thesis
    proof (cases r3)
      case (Returned mistake)
      note r3 = this
      show ?thesis
      proof (cases "truthy mistake")
        case True
        from True have tt: "\<not> \<not> truthy mistake" by simp
        have "select_randomly a ds2 self3 h3 = (r, ds1, self1, h1) \<Longrightarrow> prefix h0 h1"
          by (rule "1.IH" [OF m [symmetric] \<open>r2 = Returned rand_move\<close> refl refl
                c [symmetric] r3 refl tt p3])
        moreover from "1.prems"(2) m c \<open>r2 = Returned rand_move\<close> r3 True
        have "select_randomly a ds2 self3 h3 = (r, ds1, self1, h1)"
          by (subst (asm) select_randomly.simps) simp
        ultimately show ?thesis .
      next
        case False
        with "1.prems"(2) m c \<open>r2 = Returned rand_move\<close> r3 p3 show ?thesis
          by (subst (asm) select_randomly.simps) auto
      qed
    next
      case (Raised e)
      with "1.prems"(2) m c \<open>r2 = Returned rand_move\<close> p3 show ?thesis
        by (subst (asm) select_randomly.simps) auto
    next
      case OutOfDraws
      with "1.prems"(2) m c \<open>r2 = Returned rand_move\<close> p3 show ?thesis
        by (subst (asm) select_randomly.simps) auto
    qed
  next
    case (Raised e)
    with "1.prems"(2) m p2 show ?thesis by (subst (asm) select_randomly.simps) auto
  next
    case OutOfDraws
    with "1.prems"(2) m p2 show ?thesis by (subst (asm) select_randomly.simps) auto
  qed
qed

lemma prefix_bot_move:
  assumes "bot_move a ds self h = (r, ds1, self1, h1)"
  shows "prefix h h1"
proof -
  have p: "prefix h h" by simp
  have rm: "prefix h h2 \<Longrightarrow> prefix h (snd (snd (snd (random_move a ds2 self2 h2))))"
    for h2 ds2 self2
    using fresh_random_move [of h h2 a ds2 self2] fresh_prefix
    by (cases "random_move a ds2 self2 h2") auto
  have sr: "prefix h h2 \<Longrightarrow> prefix h (snd (snd (snd (select_randomly a ds2 self2 h2))))"
    for h2 ds2 self2
    using prefix_select_randomly [of h h2 a ds2 self2]
    by (cases "select_randomly a ds2 self2 h2") auto
  obtain r4 self4 h4 where p4: "place_4th_coin a self h = (r4, self4, h4)"
    by (cases "place_4th_coin a self h")
  from fresh_place_4th_coin [OF p p4] have ph4: "prefix h h4" by (rule fresh_prefix)
  obtain r5 self5 h5 where c5: "count_available a (map int [0..<7]) 0 self4 h4 = (r5, self5, h5)"
    by (cases "count_available a (map int [0..<7]) 0 self4 h4")
  from prefix_count_available [OF ph4 c5] have ph5: "prefix h h5" .
  consider (easy) "bot_difficulty self = Some ''easy''"
    | (moderate) "bot_difficulty self = Some ''moderate''"
    | (hard) "bot_difficulty self = Some ''hard''"
    | (other) "bot_difficulty self \<noteq> Some ''easy''" "bot_difficulty self \<noteq> Some ''moderate''"
        "bot_difficulty self \<noteq> Some ''hard''"
    by blast
  then show ?thesis
  proof cases
    case easy
    with assms rm [OF p, of ds self] show ?thesis
      by (auto simp: bot_move_def split: prod.splits outcome.splits)
  next
    case moderate
    with assms p4 ph4 rm [OF ph4, of ds self4] show ?thesis
      by (auto simp: bot_move_def split: prod.splits outcome.splits if_splits)
  next
    case hard
    with assms p4 ph4 c5 ph5 rm [OF ph5, of ds self5] sr [OF ph5, of ds self5] show ?thesis
      by (auto simp: bot_move_def split: prod.splits outcome.splits if_splits)
  next
    case other
    with assms show ?thesis by (simp add: bot_move_def)
  qed
qed

text \<open>
  Claim C3. Whatever the difficulty and the random draws, and however the call ends,
  \<open>bot_move\<close> leaves every array that existed before the call as it was, the board
  passed to it among them: the coins of the simulations go to arrays allocated
  during the call.
\<close>

theorem bot_move_leaves_board:
  "prefix h (snd (snd (snd (bot_move curr_board ds self h)))) \<and>
   (curr_board < length h \<longrightarrow>
      snd (snd (snd (bot_move curr_board ds self h))) ! curr_board = h ! curr_board)"
proof -
  obtain r ds1 self1 h1 where b: "bot_move curr_board ds self h = (r, ds1, self1, h1)"
    by (cases "bot_move curr_board ds self h")
  from prefix_bot_move [OF b] have "prefix h h1" .
  then show ?thesis using b by (auto simp: prefix_def nth_append)
qed

theorem bot_move_leaves_board_witness:
  "(0::nat) < length [open_two_board, np_zeros 6 7] \<and>
   snd (snd (snd (bot_move 0 [6, 3] hard_bot [open_two_board, np_zeros 6 7]))) ! 0
     = open_two_board"
  using bot_move_leaves_board [of "[open_two_board, np_zeros 6 7]" 0 "[6, 3]" hard_bot]
  by simp


section \<open>The bot: moves flagged as mistakes\<close>

text \<open>
  Claim C2, on the code. On a board where player 1 holds two cells of the bottom row
  and no more, the bot's coin in column 6 gives player 1 no winning column, yet
  \<open>check_mistake\<close> returns True: the opponent's first simulated coin stays on
  \<open>updated_board\<close>, which is the bot's own array and not a copy of it.
\<close>

theorem check_mistake_flags_safe_move:
  "fst (check_mistake 6 0 hard_bot [open_two_board, np_zeros 6 7]) = Returned (Some True) \<and>
   \<not> unsafe_move open_two_board 6 \<and>
   fst (place_4th_coin 0 hard_bot [open_two_board, np_zeros 6 7]) = Returned None"
  by code_simp


end
